theory Spec2Isabelle
  imports Main "HOL-Library.Signed_Division"
begin

section \<open>Data model (adiff.h)\<close>

text \<open>
  A C string is modelled by the list of its bytes before the terminating NUL, so
  \<open>strlen\<close> is \<open>length\<close> and \<open>strcmp(a, b) == 0\<close> is \<open>a = b\<close>.  C \<open>int\<close> values are
  mathematical integers: offsets and counts stay far below \<open>INT_MAX\<close>, and the products
  of \<open>compute_VS\<close> and \<open>create_selectors\<close> are those of C as long as they fit an \<open>int\<close>
  (beyond that, signed overflow is undefined in C).  Division and remainder are C's,
  truncating towards zero (\<open>sdiv\<close>, \<open>smod\<close>).  The growable
  arrays \<open>items\<close> and \<open>fentries\<close> (a count, a capacity and a data pointer, doubled on
  overflow) are lists: \<open>number_of_items\<close> and \<open>num_funcs\<close> are their lengths.  Allocation
  (\<open>Malloc\<close>, \<open>Free\<close>, \<open>strdup\<close>) is assumed to succeed and is not modelled.

  The ways a run can end early are values of \<open>error\<close>: \<open>Exit\<close> is a call of
  \<open>exit(-1)\<close>, \<open>AssertFail\<close> a failed \<open>assert\<close>, \<open>OutOfBounds\<close> an access outside
  the object addressed or to an array slot never written, \<open>DivByZero\<close> a division or
  remainder by zero (the last two are undefined behaviour in C).
\<close>

datatype pragma_type =
  PRAGMA_IF | PRAGMA_ELSE | PRAGMA_ENDIF | PRAGMA_OTHER |
  STRING | LITERAL | COMMENT | OTHER | ESCSEQ

record item =
  ibegin :: int
  iend :: int
  itype :: pragma_type

type_synonym items = "item list"

record fentry =
  fname :: string
  fbegin :: int
  fend :: int

type_synonym fentries = "fentry list"

datatype error = Exit | AssertFail | OutOfBounds | DivByZero

definition MIN_c :: "int \<Rightarrow> int \<Rightarrow> int" where
  "MIN_c x y = (if x \<le> y then x else y)"

definition MAX_c :: "int \<Rightarrow> int \<Rightarrow> int" where
  "MAX_c x y = (if x \<ge> y then x else y)"

section \<open>Storage (adiff\_storage.c)\<close>

definition init_items :: "items" where
  "init_items = []"

definition add_item :: "items \<Rightarrow> int \<Rightarrow> int \<Rightarrow> pragma_type \<Rightarrow> items" where
  "add_item Items b e t = Items @ [\<lparr>ibegin = b, iend = e, itype = t\<rparr>]"

definition finit :: "fentries" where
  "finit = []"

definition fadd :: "fentries \<Rightarrow> string \<Rightarrow> int \<Rightarrow> int \<Rightarrow> fentries" where
  "fadd FEntries name b e = FEntries @ [\<lparr>fname = name, fbegin = b, fend = e\<rparr>]"

subsection \<open>clear\<close>

text \<open>
  The inner loop \<^verbatim>\<open>for (j = begin; j <= end; j++) buffer[j] = ' ';\<close> of \<open>clear\<close>.
\<close>

function clear_span :: "string \<Rightarrow> int \<Rightarrow> int \<Rightarrow> string" where
  "clear_span buffer j e =
     (if j \<le> e then clear_span (buffer[nat j := CHR '' '']) (j + 1) e else buffer)"
  by pat_completeness auto
termination
  by (relation "measure (\<lambda>(buffer, j, e). nat (e + 1 - j))") auto

declare clear_span.simps [simp del]

text \<open>
  One iteration of the outer loop of \<open>clear\<close>: the two assertions, then the inner loop.
  \<open>n\<close> is \<open>strlen(buffer)\<close>, taken once before the loop.  A span that passes the
  assertions and starts below offset 0 would write in front of the buffer.
\<close>

definition clear_item :: "int \<Rightarrow> string \<Rightarrow> item \<Rightarrow> error + string" where
  "clear_item n buffer it =
     (if \<not> ibegin it < n then Inl AssertFail
      else if \<not> iend it < n then Inl AssertFail
      else if ibegin it \<le> iend it \<and> ibegin it < 0 then Inl OutOfBounds
      else Inr (clear_span buffer (ibegin it) (iend it)))"

fun clear_items :: "int \<Rightarrow> string \<Rightarrow> items \<Rightarrow> error + string" where
  "clear_items n buffer [] = Inr buffer"
| "clear_items n buffer (it # Items) =
     (case clear_item n buffer it of
        Inl e \<Rightarrow> Inl e
      | Inr buffer' \<Rightarrow> clear_items n buffer' Items)"

definition clear :: "string \<Rightarrow> items \<Rightarrow> error + string" where
  "clear buffer Items = clear_items (int (length buffer)) buffer Items"

section \<open>Merging the per-choice function sets (adiff\_parse.c)\<close>

text \<open>
  The search loop of \<open>select_best_func_limits\<close>: the first index \<open>k\<close> of the destination
  whose name equals the given one, if any.
\<close>

fun find_fname :: "fentries \<Rightarrow> string \<Rightarrow> nat option" where
  "find_fname [] name = None"
| "find_fname (d # ds) name =
     (if fname d = name then Some 0 else map_option Suc (find_fname ds name))"

text \<open>The body of the loop over \<open>j\<close>: update entry \<open>k\<close> in place, or append.\<close>

definition merge_entry :: "fentries \<Rightarrow> fentry \<Rightarrow> fentries" where
  "merge_entry destination s =
     (case find_fname destination (fname s) of
        Some k \<Rightarrow>
          destination[k := (destination ! k)
            \<lparr>fbegin := MIN_c (fbegin (destination ! k)) (fbegin s),
             fend := MAX_c (fend (destination ! k)) (fend s)\<rparr>]
      | None \<Rightarrow> fadd destination (fname s) (fbegin s) (fend s))"

fun merge_set :: "fentries \<Rightarrow> fentries \<Rightarrow> fentries" where
  "merge_set destination [] = destination"
| "merge_set destination (s # ss) = merge_set (merge_entry destination s) ss"

fun merge_sets :: "fentries \<Rightarrow> fentries list \<Rightarrow> fentries" where
  "merge_sets destination [] = destination"
| "merge_sets destination (src # srcs) = merge_sets (merge_set destination src) srcs"

text \<open>
  \<open>source\<close> is the array of per-choice sets, of which the first \<open>counter\<close> are read.
\<close>

definition select_best_func_limits :: "fentries list \<Rightarrow> nat \<Rightarrow> fentries" where
  "select_best_func_limits source counter = merge_sets finit (take counter source)"

definition check_func_duplicates :: "fentries \<Rightarrow> int" where
  "check_func_duplicates functions =
     (if \<exists>i \<in> set [0..<length functions]. \<exists>j \<in> set [0..<length functions].
           i \<noteq> j \<and> fname (functions ! i) = fname (functions ! j)
      then 1 else 0)"

section \<open>Tokens (adiff\_tokens.c)\<close>

text \<open>
  \<open>byte_at buffer i\<close> is the C expression \<open>buffer[i]\<close>: offset \<open>strlen(buffer)\<close> holds the
  terminating NUL.  The scanning functions are always called with \<open>n = strlen(buffer)\<close>
  and then read no offset outside \<open>0 .. n\<close>.  \<open>substr buffer b e\<close> is the token copied by
  \<^verbatim>\<open>strncpy(token, buffer + b, e - b + 1); token[e - b + 1] = 0;\<close>, read as a C string.
  The parameter \<open>orig_buffer\<close> of the C functions is left out where only debug output
  (compiled out) reads it.
\<close>

definition byte_at :: "string \<Rightarrow> int \<Rightarrow> char" where
  "byte_at buffer i =
     (if 0 \<le> i \<and> i < int (length buffer) then buffer ! nat i else CHR 0x00)"

definition substr :: "string \<Rightarrow> int \<Rightarrow> int \<Rightarrow> string" where
  "substr buffer b e = take (nat (e - b + 1)) (drop (nat b) buffer)"

text \<open>
  The delimiter string of \<open>is_delimiter\<close>:
  \<^verbatim>\<open>!@#$%^&*()-+=|\`~[]{};:'"<>,.?/\<close> followed by space, tab, carriage return and
  newline.  \<open>strchr\<close> also finds the terminating NUL of that string, so NUL is a delimiter.
\<close>

definition delimiters :: string where
  "delimiters = ''!@#$%^&*()-+=|'' @ [CHR 0x5C, CHR 0x60] @ ''~[]{};:'' @
     [CHR 0x27, CHR 0x22] @ ''<>,.?/ '' @ [CHR 0x09, CHR 0x0D, CHR 0x0A]"

definition is_delimiter :: "char \<Rightarrow> bool" where
  "is_delimiter c \<longleftrightarrow> c \<in> set delimiters \<or> c = CHR 0x00"

definition is_space :: "char \<Rightarrow> bool" where
  "is_space c \<longleftrightarrow> c = CHR '' '' \<or> c = CHR 0x09 \<or> c = CHR 0x0A \<or> c = CHR 0x0D"

lemma is_space_byte_at: "is_space (byte_at buffer index) \<Longrightarrow> 0 \<le> index \<and> index < int (length buffer)"
  by (auto simp: byte_at_def is_space_def split: if_splits)

function skip_spaces_loop :: "string \<Rightarrow> int \<Rightarrow> int" where
  "skip_spaces_loop buffer index =
     (if is_space (byte_at buffer index) then skip_spaces_loop buffer (index + 1) else index)"
  by pat_completeness auto
termination
  by (relation "measure (\<lambda>(buffer, index). nat (int (length buffer) - index))")
     (auto dest: is_space_byte_at)

declare skip_spaces_loop.simps [simp del]

definition skip_spaces :: "string \<Rightarrow> int \<Rightarrow> error + int" where
  "skip_spaces buffer index =
     (if \<not> index \<ge> 0 then Inl AssertFail else Inr (skip_spaces_loop buffer index))"

text \<open>
  The loop \<^verbatim>\<open>for (; index < n; index++) if (is_delimiter(buffer[index])) break;\<close> of
  \<open>get_simple_token\<close>; the result is the value of \<open>index\<close> after it.
\<close>

function token_end_loop :: "string \<Rightarrow> int \<Rightarrow> int \<Rightarrow> int" where
  "token_end_loop buffer n index =
     (if index < n
      then (if is_delimiter (byte_at buffer index) then index
            else token_end_loop buffer n (index + 1))
      else index)"
  by pat_completeness auto
termination
  by (relation "measure (\<lambda>(buffer, n, index). nat (n - index))") auto

declare token_end_loop.simps [simp del]

text \<open>
  A token function returns \<open>None\<close> for the C result \<open>-1\<close> and otherwise the returned
  index with the values stored through \<open>begin\<close>, \<open>end\<close> and \<open>token\<close>.
\<close>

type_synonym token_result = "(int \<times> int \<times> int \<times> string) option"

definition get_simple_token :: "string \<Rightarrow> int \<Rightarrow> int \<Rightarrow> error + token_result" where
  "get_simple_token buffer n index =
     (if index < 0 \<or> index \<ge> n then Inr None
      else case skip_spaces buffer index of
        Inl e \<Rightarrow> Inl e
      | Inr index' \<Rightarrow>
          if index' \<ge> n then Inr None
          else
            let b = index';
                e = (if is_delimiter (byte_at buffer index') then b
                     else token_end_loop buffer n (index' + 1) - 1)
            in case skip_spaces buffer (e + 1) of
                 Inl err \<Rightarrow> Inl err
               | Inr index'' \<Rightarrow> Inr (Some (index'', b, e, substr buffer b e)))"

text \<open>\<open>tok_at token i\<close> is \<open>token[i]\<close> for a C string \<open>token\<close> and \<open>i \<le> strlen(token)\<close>.\<close>

definition tok_at :: "string \<Rightarrow> nat \<Rightarrow> char" where
  "tok_at token i = (if i < length token then token ! i else CHR 0x00)"

text \<open>One pass of the loop body of \<open>compatible_tokens\<close>, for the characters \<open>c1\<close>, \<open>c2\<close>.\<close>

definition compatible_chars :: "char \<Rightarrow> char \<Rightarrow> bool" where
  "compatible_chars c1 c2 \<longleftrightarrow>
     ((c1 = CHR ''<'' \<or> c1 = CHR ''>'' \<or> c1 = CHR ''='') \<and> c2 = CHR ''='') \<or>
     ((c1 = CHR ''+'' \<or> c1 = CHR ''-'' \<or> c1 = CHR ''/'' \<or> c1 = CHR ''*'' \<or>
       c1 = CHR ''&'' \<or> c1 = CHR ''|'' \<or> c1 = CHR ''%'' \<or> c1 = CHR ''^'' \<or>
       c1 = CHR ''~'' \<or> c1 = CHR ''!'') \<and> c2 = CHR ''='') \<or>
     (c1 = CHR ''<'' \<and> c2 = CHR ''<'') \<or>
     (c1 = CHR ''>'' \<and> c2 = CHR ''>'') \<or>
     (c1 = CHR ''-'' \<and> c2 = CHR ''>'') \<or>
     (c1 = CHR ''+'' \<and> c2 = CHR ''+'') \<or>
     (c1 = CHR ''-'' \<and> c2 = CHR ''-'') \<or>
     (c1 = CHR ''|'' \<and> c2 = CHR ''|'') \<or>
     (c1 = CHR ''&'' \<and> c2 = CHR ''&'') \<or>
     (c1 = CHR ''*'' \<and> c2 = CHR ''/'') \<or>
     (c1 = CHR ''/'' \<and> c2 = CHR ''*'')"

text \<open>
  The loop of \<open>compatible_tokens\<close> runs its body twice, the second time with \<open>c1\<close> and
  \<open>c2\<close> exchanged.
\<close>

definition compatible_tokens :: "string \<Rightarrow> string \<Rightarrow> bool" where
  "compatible_tokens token1 token2 =
     (if tok_at token1 0 = CHR ''#'' \<and> tok_at token1 1 = CHR 0x00 then True
      else if tok_at token1 0 = CHR 0x00 \<or> tok_at token2 0 = CHR 0x00 then False
      else if tok_at token1 1 \<noteq> CHR 0x00 \<or> tok_at token2 1 \<noteq> CHR 0x00 then False
      else compatible_chars (tok_at token1 0) (tok_at token2 0) \<or>
           compatible_chars (tok_at token2 0) (tok_at token1 0))"

definition allow_space_in_pragma_name :: bool where
  "allow_space_in_pragma_name = True"

definition get_token :: "string \<Rightarrow> int \<Rightarrow> int \<Rightarrow> error + token_result" where
  "get_token buffer n index =
     (case get_simple_token buffer n index of
        Inl e \<Rightarrow> Inl e
      | Inr None \<Rightarrow> Inr None
      | Inr (Some (index1, begin1, end1, ptr1)) \<Rightarrow>
          (case get_simple_token buffer n index1 of
             Inl e \<Rightarrow> Inl e
           | Inr None \<Rightarrow> Inr (Some (index1, begin1, end1, ptr1))
           | Inr (Some (index2, begin2, end2, ptr2)) \<Rightarrow>
               let special_case_flag =
                     (allow_space_in_pragma_name \<and> tok_at ptr1 0 = CHR ''#'' \<and>
                      tok_at ptr1 1 = CHR 0x00)
               in if index + int (length ptr1) \<noteq> index1 \<and> \<not> special_case_flag
                  then Inr (Some (index1, begin1, end1, ptr1))
                  else if compatible_tokens ptr1 ptr2
                  then Inr (Some (index2, begin1, end2, ptr1 @ ptr2))
                  else Inr (Some (index1, begin1, end1, ptr1))))"

definition is_identifier :: "string \<Rightarrow> bool" where
  "is_identifier token =
     (if length token = 0 then False else list_all (\<lambda>c. \<not> is_delimiter c) token)"

text \<open>Progress of the scanner, needed for the termination of the loops over tokens.\<close>

lemma skip_spaces_loop_ge: "index \<le> skip_spaces_loop buffer index"
proof (induction buffer index rule: skip_spaces_loop.induct)
  case (1 buffer index)
  then show ?case by (subst skip_spaces_loop.simps) auto
qed

lemma token_end_loop_ge: "index \<le> token_end_loop buffer n index"
proof (induction buffer n index rule: token_end_loop.induct)
  case (1 buffer n index)
  then show ?case by (subst token_end_loop.simps) auto
qed

lemma get_simple_token_progress:
  assumes "get_simple_token buffer n index = Inr (Some (index', b, e, t))"
  shows "0 \<le> index \<and> index < n \<and> index \<le> b \<and> b \<le> e \<and> e < index'"
proof -
  from assms have i: "0 \<le> index" "index < n"
    by (auto simp: get_simple_token_def split: if_splits)
  let ?i1 = "skip_spaces_loop buffer index"
  have ge1: "index \<le> ?i1" by (rule skip_spaces_loop_ge)
  from assms i have b: "b = ?i1" and lt: "?i1 < n"
    and e: "e = (if is_delimiter (byte_at buffer ?i1) then ?i1 else token_end_loop buffer n (?i1 + 1) - 1)"
    and i': "index' = skip_spaces_loop buffer (e + 1)"
    by (auto simp: get_simple_token_def skip_spaces_def Let_def split: if_splits sum.splits)
  have "b \<le> e" using b e token_end_loop_ge[of "?i1 + 1" buffer n] by (auto split: if_splits)
  moreover have "e < index'" using i' skip_spaces_loop_ge[of "e + 1" buffer] by simp
  ultimately show ?thesis using i ge1 b by simp
qed

lemma get_token_progress:
  assumes "get_token buffer n index = Inr (Some (index', b, e, t))"
  shows "index < n \<and> index < index'"
proof -
  from assms obtain index1 begin1 end1 ptr1 where
    s1: "get_simple_token buffer n index = Inr (Some (index1, begin1, end1, ptr1))"
    by (auto simp: get_token_def split: sum.splits option.splits)
  from get_simple_token_progress[OF s1] have p1: "index < n" "index < index1" by auto
  show ?thesis
  proof (cases "index' = index1")
    case True
    with p1 show ?thesis by simp
  next
    case False
    with assms s1 obtain begin2 end2 ptr2 where
      "get_simple_token buffer n index1 = Inr (Some (index', begin2, end2, ptr2))"
      by (auto simp: get_token_def Let_def split: sum.splits option.splits if_splits)
    from get_simple_token_progress[OF this] p1 show ?thesis by auto
  qed
qed

text \<open>
  \<open>find_token\<close>: the begin of the first token equal to \<open>target\<close>, or \<open>None\<close> for \<open>-1\<close>.
\<close>

function find_token :: "string \<Rightarrow> int \<Rightarrow> int \<Rightarrow> string \<Rightarrow> error + int option" where
  "find_token buffer n index target =
     (case get_token buffer n index of
        Inl e \<Rightarrow> Inl e
      | Inr None \<Rightarrow> Inr None
      | Inr (Some (index', b, e, token)) \<Rightarrow>
          if token = target then Inr (Some b) else find_token buffer n index' target)"
  by pat_completeness auto
termination
  by (relation "measure (\<lambda>(buffer, n, index, target). nat (n - index))")
     (auto dest!: get_token_progress)

declare find_token.simps [simp del]

definition is_data_declaration :: "string \<Rightarrow> bool" where
  "is_data_declaration token \<longleftrightarrow>
     token = ''struct'' \<or> token = ''union'' \<or> token = ''enum'' \<or> token = ''=''"



section \<open>Line numbers and bracket matching (adiff\_parse.c)\<close>

definition get_line_number :: "string \<Rightarrow> int \<Rightarrow> error + int" where
  "get_line_number buffer index =
     (if index < 0 then Inr (- 1)
      else if index > int (length buffer) then Inl Exit
      else Inr (1 + int (length (filter (\<lambda>c. c = CHR 0x0A) (take (nat index) buffer)))))"

text \<open>
  The loop of \<open>match_bracket\<close>, with its variables \<open>counter\<close>, \<open>flag\<close> and \<open>index\<close> as
  arguments.  The result \<open>None\<close> is the C result \<open>ERROR\<close>; the text written to
  \<open>error_message\<close> is not modelled, but the call of \<open>get_line_number\<close> that computes it
  is, since it can end the process.
\<close>

function match_bracket_loop ::
  "string \<Rightarrow> string \<Rightarrow> int \<Rightarrow> string \<Rightarrow> string \<Rightarrow> int \<Rightarrow> bool \<Rightarrow> int \<Rightarrow> error + int option"
where
  "match_bracket_loop orig_buffer buffer n opening closing counter flag index =
     (case get_token buffer n index of
        Inl e \<Rightarrow> Inl e
      | Inr None \<Rightarrow>
          (case get_line_number orig_buffer index of
             Inl e \<Rightarrow> Inl e
           | Inr line \<Rightarrow> Inr None)
      | Inr (Some (index', b, e, token)) \<Rightarrow>
          if \<not> flag \<and> token \<noteq> opening then Inr None
          else
            let counter1 = (if token = opening then counter + 1 else counter);
                counter2 = (if token = closing then counter1 - 1 else counter1)
            in if counter2 = 0 then Inr (Some b)
               else match_bracket_loop orig_buffer buffer n opening closing counter2 True index')"
  by pat_completeness auto
termination
  by (relation "measure (\<lambda>(orig_buffer, buffer, n, opening, closing, counter, flag, index).
        nat (n - index))")
     (auto dest!: get_token_progress)

declare match_bracket_loop.simps [simp del]

definition match_bracket ::
  "string \<Rightarrow> string \<Rightarrow> int \<Rightarrow> int \<Rightarrow> string \<Rightarrow> string \<Rightarrow> error + int option"
where
  "match_bracket orig_buffer buffer n index opening closing =
     match_bracket_loop orig_buffer buffer n opening closing 0 False index"

section \<open>Comments and literals (adiff\_matching.c)\<close>

text \<open>
  \<open>strchr(buffer + index, c)\<close> and \<open>strstr(buffer + index, needle)\<close>, as offsets into
  \<open>buffer\<close>; \<open>None\<close> is the null pointer.  A start outside \<open>0 .. strlen(buffer)\<close> would read
  outside the string.
\<close>

function strchr_loop :: "string \<Rightarrow> int \<Rightarrow> char \<Rightarrow> int option" where
  "strchr_loop buffer index c =
     (if byte_at buffer index = c then Some index
      else if byte_at buffer index = CHR 0x00 then None
      else strchr_loop buffer (index + 1) c)"
  by pat_completeness auto
termination
  by (relation "measure (\<lambda>(buffer, index, c). nat (int (length buffer) - index))")
     (auto simp: byte_at_def split: if_splits)

declare strchr_loop.simps [simp del]

definition strchr :: "string \<Rightarrow> int \<Rightarrow> char \<Rightarrow> error + int option" where
  "strchr buffer index c =
     (if index < 0 \<or> index > int (length buffer) then Inl OutOfBounds
      else Inr (strchr_loop buffer index c))"

function strstr_loop :: "string \<Rightarrow> int \<Rightarrow> string \<Rightarrow> int option" where
  "strstr_loop buffer index needle =
     (if take (length needle) (drop (nat index) buffer) = needle then Some index
      else if byte_at buffer index = CHR 0x00 then None
      else strstr_loop buffer (index + 1) needle)"
  by pat_completeness auto
termination
  by (relation "measure (\<lambda>(buffer, index, needle). nat (int (length buffer) - index))")
     (auto simp: byte_at_def split: if_splits)

declare strstr_loop.simps [simp del]

definition strstr :: "string \<Rightarrow> int \<Rightarrow> string \<Rightarrow> error + int option" where
  "strstr buffer index needle =
     (if index < 0 \<or> index > int (length buffer) then Inl OutOfBounds
      else Inr (strstr_loop buffer index needle))"

text \<open>
  The loop of \<open>match_symbol\<close> over the bytes \<open>begin .. end\<close> that sets \<open>flag\<close>: a backslash
  toggles it, any other byte clears it.
\<close>

function escape_flag :: "string \<Rightarrow> int \<Rightarrow> int \<Rightarrow> bool \<Rightarrow> bool" where
  "escape_flag buffer i e flag =
     (if i \<le> e
      then escape_flag buffer (i + 1) e (if byte_at buffer i = CHR 0x5C then \<not> flag else False)
      else flag)"
  by pat_completeness auto
termination
  by (relation "measure (\<lambda>(buffer, i, e, flag). nat (e + 1 - i))") auto

declare escape_flag.simps [simp del]

lemma strchr_loop_ge: "strchr_loop buffer index c = Some p \<Longrightarrow> index \<le> p"
proof (induction buffer index c rule: strchr_loop.induct)
  case (1 buffer index c)
  from "1.prems" show ?case
    by (subst (asm) strchr_loop.simps) (auto split: if_splits dest: "1.IH")
qed

lemma strstr_loop_ge: "strstr_loop buffer index needle = Some p \<Longrightarrow> index \<le> p"
proof (induction buffer index needle rule: strstr_loop.induct)
  case (1 buffer index needle)
  from "1.prems" show ?case
    by (subst (asm) strstr_loop.simps) (auto split: if_splits dest: "1.IH")
qed

text \<open>The \<open>do \<dots> while (1)\<close> loop of \<open>match_symbol\<close>; \<open>continue\<close> is the recursive call.\<close>

function match_symbol_loop :: "string \<Rightarrow> int \<Rightarrow> char \<Rightarrow> int \<Rightarrow> error + int" where
  "match_symbol_loop buffer index_orig symbol index =
     (case strchr buffer index symbol of
        Inl e \<Rightarrow> Inl e
      | Inr None \<Rightarrow> Inr (int (length buffer))
      | Inr (Some p) \<Rightarrow>
          if byte_at buffer (p - 1) = CHR 0x5C
          then (let b = index_orig + 1; e = p - 1
                in if \<not> e \<ge> b then Inl AssertFail
                   else if escape_flag buffer b e False
                   then match_symbol_loop buffer index_orig symbol (p + 1)
                   else Inr (p + 1))
          else Inr (p + 1))"
  by pat_completeness auto
termination
  by (relation "measure (\<lambda>(buffer, index_orig, symbol, index).
        nat (int (length buffer) + 1 - index))")
     (auto simp: strchr_def split: if_splits dest!: strchr_loop_ge)

declare match_symbol_loop.simps [simp del]

definition match_symbol :: "string \<Rightarrow> int \<Rightarrow> char \<Rightarrow> error + int" where
  "match_symbol buffer index symbol =
     (if byte_at buffer index \<noteq> symbol then Inr (- 1)
      else match_symbol_loop buffer index symbol (index + 1))"

definition matchComment :: "string \<Rightarrow> int \<Rightarrow> error + int" where
  "matchComment buffer index =
     (if byte_at buffer index \<noteq> CHR ''/'' then Inr (- 1)
      else if byte_at buffer (index + 1) \<noteq> CHR ''*'' then Inr (- 1)
      else case strstr buffer (index + 2) ''*/'' of
             Inl e \<Rightarrow> Inl e
           | Inr (Some p) \<Rightarrow> Inr (p + 2)
           | Inr None \<Rightarrow> Inr (int (length buffer)))"

text \<open>
  One iteration of the loop of \<open>find_comments_and_literals\<close>: the \<open>switch\<close> on
  \<open>buffer[i]\<close>.  The result is the new value of \<open>i\<close> with the items collected so far.  The
  global \<open>flag_nested_comments\<close> is the argument \<open>nested\<close>.
\<close>

definition fcl_step ::
  "bool \<Rightarrow> string \<Rightarrow> string \<Rightarrow> int \<Rightarrow> bool \<Rightarrow> bool \<Rightarrow> bool \<Rightarrow> int \<Rightarrow> items \<Rightarrow>
     error + (int \<times> items)"
where
  "fcl_step nested orig_buffer buffer n add_literals add_comments add_backslashes i Items =
     (if byte_at buffer i = CHR 0x22 then
        (case match_symbol buffer i (CHR 0x22) of
           Inl e \<Rightarrow> Inl e
         | Inr e \<Rightarrow>
             if \<not> e > 0 then Inl AssertFail
             else Inr (e, if add_literals then add_item Items i (e - 1) STRING else Items))
      else if byte_at buffer i = CHR 0x27 then
        (case match_symbol buffer i (CHR 0x27) of
           Inl e \<Rightarrow> Inl e
         | Inr e \<Rightarrow>
             if \<not> e > 0 then Inl AssertFail
             else Inr (e, if add_literals then add_item Items i (e - 1) LITERAL else Items))
      else if byte_at buffer i = CHR ''/'' then
        (if byte_at buffer (i + 1) = CHR ''*'' then
           (if nested then
              (case match_bracket orig_buffer buffer n i ''/*'' ''*/'' of
                 Inl e \<Rightarrow> Inl e
               | Inr None \<Rightarrow> Inl Exit
               | Inr (Some e) \<Rightarrow>
                   Inr (e + 2, if add_comments then add_item Items i (e + 1) COMMENT else Items))
            else
              (case matchComment buffer i of
                 Inl e \<Rightarrow> Inl e
               | Inr e \<Rightarrow>
                   if \<not> e > 0 then Inl AssertFail
                   else Inr (e, if add_comments then add_item Items i (e - 1) COMMENT
                                else Items)))
         else Inr (i + 1, Items))
      else if byte_at buffer i = CHR 0x5C then
        Inr (i + 2, if add_backslashes then add_item Items i (i + 1) ESCSEQ else Items)
      else Inr (i + 1, Items))"

lemma match_symbol_loop_Some:
  "strchr buffer index symbol = Inr (Some p) \<Longrightarrow>
   match_symbol_loop buffer index_orig symbol index =
     (if byte_at buffer (p - 1) = CHR 0x5C
      then (if \<not> p - 1 \<ge> index_orig + 1 then Inl AssertFail
            else if escape_flag buffer (index_orig + 1) (p - 1) False
            then match_symbol_loop buffer index_orig symbol (p + 1)
            else Inr (p + 1))
      else Inr (p + 1))"
  by (subst match_symbol_loop.simps) (simp add: Let_def)

lemma match_symbol_loop_None:
  "strchr buffer index symbol = Inr None \<Longrightarrow>
   match_symbol_loop buffer index_orig symbol index = Inr (int (length buffer))"
  by (subst match_symbol_loop.simps) simp

lemma match_symbol_loop_Inl:
  "strchr buffer index symbol = Inl e \<Longrightarrow>
   match_symbol_loop buffer index_orig symbol index = Inl e"
  by (subst match_symbol_loop.simps) simp

lemma match_symbol_loop_ge:
  "match_symbol_loop buffer index_orig symbol index = Inr r \<Longrightarrow> index \<le> r"
proof (induction buffer index_orig symbol index rule: match_symbol_loop.induct)
  case (1 buffer index_orig symbol index)
  show ?case
  proof (cases "strchr buffer index symbol")
    case (Inl e)
    with "1.prems" show ?thesis by (simp add: match_symbol_loop_Inl)
  next
    case (Inr po)
    then have le: "index \<le> int (length buffer)"
      by (auto simp: strchr_def split: if_splits)
    show ?thesis
    proof (cases po)
      case None
      with Inr "1.prems" le show ?thesis by (simp add: match_symbol_loop_None)
    next
      case (Some p)
      with Inr have ge: "index \<le> p"
        by (auto simp: strchr_def split: if_splits dest: strchr_loop_ge)
      from Inr Some have sp: "strchr buffer index symbol = Inr (Some p)" by simp
      show ?thesis
      proof (cases "r = p + 1")
        case True
        with ge show ?thesis by simp
      next
        case False
        with "1.prems"(1)[unfolded match_symbol_loop_Some[OF sp]]
        have bs: "byte_at buffer (p - 1) = CHR 0x5C" "\<not> \<not> p - 1 \<ge> index_orig + 1"
          "escape_flag buffer (index_orig + 1) (p - 1) False"
          and rec: "match_symbol_loop buffer index_orig symbol (p + 1) = Inr r"
          by (simp_all split: if_splits)
        from "1.IH"[OF Inr Some bs(1) refl refl bs(2) bs(3) rec] ge show ?thesis by simp
      qed
    qed
  qed
qed

lemma match_bracket_loop_Some:
  "get_token buffer n index = Inr (Some (index', b, e, token)) \<Longrightarrow>
   match_bracket_loop orig_buffer buffer n opn cls counter flag index =
     (if \<not> flag \<and> token \<noteq> opn then Inr None
      else if (if token = cls then (if token = opn then counter + 1 else counter) - 1
               else (if token = opn then counter + 1 else counter)) = 0
      then Inr (Some b)
      else match_bracket_loop orig_buffer buffer n opn cls
             (if token = cls then (if token = opn then counter + 1 else counter) - 1
              else (if token = opn then counter + 1 else counter)) True index')"
  by (subst match_bracket_loop.simps) (simp add: Let_def)

lemma match_bracket_loop_None:
  "get_token buffer n index = Inr None \<Longrightarrow>
   match_bracket_loop orig_buffer buffer n opn cls counter flag index =
     (case get_line_number orig_buffer index of Inl e \<Rightarrow> Inl e | Inr line \<Rightarrow> Inr None)"
  by (subst match_bracket_loop.simps) simp

lemma match_bracket_loop_Inl:
  "get_token buffer n index = Inl e \<Longrightarrow>
   match_bracket_loop orig_buffer buffer n opn cls counter flag index = Inl e"
  by (subst match_bracket_loop.simps) simp

lemma get_token_begin_ge:
  "get_token buffer n index = Inr (Some (index', b, e, token)) \<Longrightarrow> index \<le> b"
  by (auto simp: get_token_def Let_def split: sum.splits option.splits if_splits
           dest!: get_simple_token_progress)

lemma match_bracket_loop_ge:
  "match_bracket_loop orig_buffer buffer n opn cls counter flag index = Inr (Some r) \<Longrightarrow>
   index \<le> r"
proof (induction orig_buffer buffer n opn cls counter flag index
       rule: match_bracket_loop.induct)
  case (1 orig_buffer buffer n opn cls counter flag index)
  have "\<exists>index' b e token. get_token buffer n index = Inr (Some (index', b, e, token))"
  proof (cases "get_token buffer n index")
    case (Inl e)
    with "1.prems" show ?thesis by (simp add: match_bracket_loop_Inl)
  next
    case (Inr res)
    show ?thesis
    proof (cases res)
      case None
      with Inr "1.prems" show ?thesis
        by (simp add: match_bracket_loop_None split: sum.splits)
    next
      case (Some a)
      with Inr show ?thesis by (cases a) auto
    qed
  qed
  then obtain index' b e token where
    tok: "get_token buffer n index = Inr (Some (index', b, e, token))" by blast
  from tok have b: "index \<le> b" by (rule get_token_begin_ge)
  from get_token_progress[OF tok] have lt: "index < index'" by simp
  define c2 where "c2 = (if token = cls then (if token = opn then counter + 1 else counter) - 1
               else (if token = opn then counter + 1 else counter))"
  note unf = "1.prems"[unfolded match_bracket_loop_Some[OF tok], folded c2_def]
  show ?case
  proof (cases "c2 = 0")
    case True
    with unf have "r = b" by (simp split: if_splits)
    with b show ?thesis by simp
  next
    case False
    with unf
    have nf: "\<not> (\<not> flag \<and> token \<noteq> opn)"
      and rec: "match_bracket_loop orig_buffer buffer n opn cls c2 True index' = Inr (Some r)"
      by (simp_all split: if_splits)
    from "1.IH"[OF tok refl refl refl refl nf refl refl False[unfolded c2_def] rec[unfolded c2_def]] lt
    show ?thesis by simp
  qed
qed

lemma fcl_step_progress:
  assumes "fcl_step nested orig_buffer buffer n al ac ab i Items = Inr (i', Items')"
    and "i < int (length buffer)"
  shows "i < i'"
proof -
  have ms: "match_symbol buffer i c = Inr e \<Longrightarrow> byte_at buffer i = c \<Longrightarrow> i < e" for c e
    using match_symbol_loop_ge[of buffer i c "i + 1" e]
    by (auto simp: match_symbol_def split: if_splits)
  have mc: "matchComment buffer i = Inr e \<Longrightarrow> byte_at buffer i = CHR ''/'' \<Longrightarrow>
            byte_at buffer (i + 1) = CHR ''*'' \<Longrightarrow> i < e" for e
    using assms(2)
    by (auto simp: matchComment_def strstr_def split: if_splits sum.splits option.splits
             dest!: strstr_loop_ge)
  have mb: "match_bracket orig_buffer buffer n i ''/*'' ''*/'' = Inr (Some e) \<Longrightarrow> i \<le> e" for e
    unfolding match_bracket_def by (rule match_bracket_loop_ge)
  from assms(1) show ?thesis
    unfolding fcl_step_def
    by (auto split: if_splits sum.splits option.splits dest: ms mc mb)
qed

text \<open>
  The loop \<^verbatim>\<open>for (i = 0; i < n;)\<close> of \<open>find_comments_and_literals\<close>, with
  \<open>n = strlen(buffer)\<close>, and the check \<open>i < 0\<close> that ends each iteration.
\<close>

function fcl_loop ::
  "bool \<Rightarrow> string \<Rightarrow> string \<Rightarrow> bool \<Rightarrow> bool \<Rightarrow> bool \<Rightarrow> int \<Rightarrow> items \<Rightarrow> error + items"
where
  "fcl_loop nested orig_buffer buffer add_literals add_comments add_backslashes i Items =
     (if i < int (length buffer) then
        (case fcl_step nested orig_buffer buffer (int (length buffer))
                add_literals add_comments add_backslashes i Items of
           Inl e \<Rightarrow> Inl e
         | Inr (i', Items') \<Rightarrow>
             if i' < 0 then Inl Exit
             else fcl_loop nested orig_buffer buffer add_literals add_comments
                    add_backslashes i' Items')
      else Inr Items)"
  by pat_completeness auto
termination
  by (relation "measure (\<lambda>(nested, orig_buffer, buffer, al, ac, ab, i, Items).
        nat (int (length buffer) - i))")
     (auto dest: fcl_step_progress)

declare fcl_loop.simps [simp del]

text \<open>
  \<open>find_comments_and_literals\<close> appends to the caller's \<open>Items\<close>; the global
  \<open>flag_nested_comments\<close> is its first argument here.
\<close>

definition find_comments_and_literals ::
  "bool \<Rightarrow> string \<Rightarrow> string \<Rightarrow> items \<Rightarrow> bool \<Rightarrow> bool \<Rightarrow> bool \<Rightarrow> error + items"
where
  "find_comments_and_literals nested orig_buffer buffer Items
      add_literals add_comments add_backslashes =
     fcl_loop nested orig_buffer buffer add_literals add_comments add_backslashes 0 Items"

text \<open>
  The words of the specification for the end of a literal: the number of consecutive
  backslashes immediately preceding offset \<open>p\<close>, and a matching quote at \<open>p\<close> preceded by
  an even number of them (an unescaped quote).
\<close>

definition backslashes_before :: "string \<Rightarrow> int \<Rightarrow> nat" where
  "backslashes_before buffer p =
     length (takeWhile (\<lambda>c. c = CHR 0x5C) (rev (take (nat p) buffer)))"

definition unescaped_quote :: "string \<Rightarrow> char \<Rightarrow> int \<Rightarrow> bool" where
  "unescaped_quote buffer symbol p \<longleftrightarrow>
     byte_at buffer p = symbol \<and> even (backslashes_before buffer p)"

definition next_unescaped_quote :: "string \<Rightarrow> int \<Rightarrow> char \<Rightarrow> int option" where
  "next_unescaped_quote buffer index symbol =
     List.find (unescaped_quote buffer symbol) [index + 1 .. int (length buffer) - 1]"



section \<open>The directive tree and the branch selector (adiff.h, adiff\_pragmas.c)\<close>

text \<open>
  An \<open>element\<close> owns the list of its children; \<open>number_of_elements\<close> is the length of
  \<open>elist\<close>.  The field \<open>pragma_type\<close> holds \<open>-1\<close> (\<open>None\<close>) or the type of the directive item.
\<close>

datatype comp_type = AND | OR | TERM

datatype element =
  Element (etype: comp_type) (text_begin: int) (text_end: int)
          (pragma_begin: int) (pragma_end: int) (pragma_type: "pragma_type option")
          (pid: int) (elist: "element list")

record depth_width =
  depth :: int
  width :: int

fun compute_depth_width :: "element \<Rightarrow> depth_width" where
  "compute_depth_width (Element t tb te pb pe pt p list) =
     (let max_dw =
            foldl (\<lambda>max_dw c.
                     let dw = compute_depth_width c
                     in \<lparr>depth = MAX_c (depth max_dw) (depth dw),
                         width = MAX_c (width max_dw) (width dw)\<rparr>)
                  \<lparr>depth = 0, width = 0\<rparr> list
      in if t = OR
         then \<lparr>depth = depth max_dw + 1, width = MAX_c (width max_dw) (int (length list))\<rparr>
         else max_dw)"

text \<open>One step of the loop over the children in \<open>compute_depth_width\<close>.\<close>

definition dw_step :: "depth_width \<Rightarrow> element \<Rightarrow> depth_width" where
  "dw_step max_dw c =
     (let dw = compute_depth_width c
      in \<lparr>depth = MAX_c (depth max_dw) (depth dw), width = MAX_c (width max_dw) (width dw)\<rparr>)"

definition compute_VS :: "depth_width \<Rightarrow> int" where
  "compute_VS dw = foldl (\<lambda>s i. s * width dw) 1 [0 ..< nat (depth dw)]"














section \<open>The diff engine (adiff\_diff.c)\<close>

text \<open>
  \<open>duplicate_substr\<close> copies \<open>end - begin + 1\<close> bytes from offset \<open>begin\<close>; the copy stops at
  the terminating NUL, so an extent that ends at offset \<open>strlen(buffer)\<close> yields the text
  up to the end.  A negative \<open>begin\<close> passes the range check and reads in front of the
  buffer.
\<close>

definition duplicate_substr :: "string \<Rightarrow> int \<Rightarrow> int \<Rightarrow> error + string" where
  "duplicate_substr buffer b e =
     (let n = int (length buffer); m = e - b + 1
      in if b > n \<or> e > n \<or> b > e then Inl Exit
         else if b < 0 then Inl OutOfBounds
         else Inr (take (nat m) (drop (nat b) buffer)))"

definition create_func_items :: "items \<Rightarrow> int \<Rightarrow> int \<Rightarrow> items" where
  "create_func_items orig fb fe =
     foldl (\<lambda>new it.
              if ibegin it \<ge> fb \<and> ibegin it \<le> fe \<and> iend it \<ge> fb \<and> iend it \<le> fe
              then add_item new (ibegin it) (iend it) (itype it) else new)
           init_items orig"

text \<open>
  \<open>strncmp(s1, s2, l) == 0\<close> for C strings; a negative \<open>l\<close> converts to a huge
  \<open>size_t\<close>, so that the whole strings are compared.
\<close>

definition strncmp_eq :: "string \<Rightarrow> string \<Rightarrow> int \<Rightarrow> bool" where
  "strncmp_eq s1 s2 l = (if l < 0 then s1 = s2 else take (nat l) s1 = take (nat l) s2)"

text \<open>
  The loop of \<open>diff\<close> over the literal items of both sides together with the statements
  up to the test \<open>ni1 != ni2\<close>.  The result tells whether control reached the label
  \<open>different\<close>, with the values of \<open>offset1\<close> and \<open>offset2\<close> at that point.
\<close>

fun compare_literals ::
  "string \<Rightarrow> string \<Rightarrow> items \<Rightarrow> items \<Rightarrow> int \<Rightarrow> int \<Rightarrow> bool \<times> int \<times> int"
where
  "compare_literals buffer1 buffer2 (x # xs) (y # ys) offset1 offset2 =
     (let l1 = iend x - ibegin x + 1;
          l2 = iend y - ibegin y + 1
      in if l1 \<noteq> l2 then (True, ibegin x, ibegin y)
         else if itype x \<noteq> itype y then (True, ibegin x, ibegin y)
         else if \<not> strncmp_eq (drop (nat (ibegin x)) buffer1) (drop (nat (ibegin y)) buffer2) l1
         then (True, ibegin x, ibegin y)
         else compare_literals buffer1 buffer2 xs ys (ibegin x) (ibegin y))"
| "compare_literals buffer1 buffer2 (x # xs) [] offset1 offset2 = (True, ibegin x, offset2)"
| "compare_literals buffer1 buffer2 [] (y # ys) offset1 offset2 = (True, offset1, ibegin y)"
| "compare_literals buffer1 buffer2 [] [] offset1 offset2 = (False, offset1, offset2)"

text \<open>The bytes the lock-step walk of \<open>diff\<close> skips: space, tab and newline.\<close>

definition diff_space :: "char \<Rightarrow> bool" where
  "diff_space c \<longleftrightarrow> c = CHR '' '' \<or> c = CHR 0x09 \<or> c = CHR 0x0A"

function skip_diff_spaces :: "string \<Rightarrow> int \<Rightarrow> int" where
  "skip_diff_spaces buffer i =
     (if diff_space (byte_at buffer i) then skip_diff_spaces buffer (i + 1) else i)"
  by pat_completeness auto
termination
  by (relation "measure (\<lambda>(buffer, i). nat (int (length buffer) - i))")
     (auto simp: byte_at_def diff_space_def split: if_splits)

declare skip_diff_spaces.simps [simp del]

lemma skip_diff_spaces_ge: "i \<le> skip_diff_spaces buffer i"
proof (induction buffer i rule: skip_diff_spaces.induct)
  case (1 buffer i)
  then show ?case by (subst skip_diff_spaces.simps) auto
qed

text \<open>
  The lock-step walk: the loop \<^verbatim>\<open>for (i = 0, j = 0; (i < n1) && (j < n2); i++, j++)\<close> and
  the test after it.  The result is the pair \<open>(i, j)\<close> at the divergence, or \<open>None\<close> when
  the walk ends without one.
\<close>

function diff_walk :: "string \<Rightarrow> string \<Rightarrow> int \<Rightarrow> int \<Rightarrow> int \<Rightarrow> int \<Rightarrow> (int \<times> int) option" where
  "diff_walk newbuffer1 newbuffer2 n1 n2 i j =
     (if i < n1 \<and> j < n2 then
        (let i' = skip_diff_spaces newbuffer1 i;
             j' = skip_diff_spaces newbuffer2 j
         in if byte_at newbuffer1 i' \<noteq> byte_at newbuffer2 j' then Some (i', j')
            else diff_walk newbuffer1 newbuffer2 n1 n2 (i' + 1) (j' + 1))
      else if i < n1 \<or> j < n2 then Some (i, j)
      else None)"
  by pat_completeness auto
termination
proof (relation "measure (\<lambda>(newbuffer1, newbuffer2, n1, n2, i, j). nat (n1 - i))", goal_cases)
  case 1
  show ?case by simp
next
  case (2 newbuffer1 newbuffer2 n1 n2 i j x xa)
  then show ?case using skip_diff_spaces_ge[of i newbuffer1] by simp
qed

declare diff_walk.simps [simp del]

text \<open>
  \<open>diff\<close> returns its flag (1 for changed, 0 for unchanged) with the values left in
  \<open>*offset1\<close> and \<open>*offset2\<close>.  The C parameters \<open>_buffer1\<close>, \<open>_newbuffer1\<close> and
  \<open>_literals1\<close> (whole file) are \<open>full_buffer1\<close>, \<open>full_newbuffer1\<close> and \<open>all_literals1\<close>.
\<close>

definition diff ::
  "string \<Rightarrow> string \<Rightarrow> int \<Rightarrow> int \<Rightarrow> items \<Rightarrow> string \<Rightarrow> string \<Rightarrow> int \<Rightarrow> int \<Rightarrow> items \<Rightarrow>
     error + (int \<times> int \<times> int)"
where
  "diff full_buffer1 full_newbuffer1 fbegin1 fend1 all_literals1
        full_buffer2 full_newbuffer2 fbegin2 fend2 all_literals2 =
     (case duplicate_substr full_buffer1 fbegin1 fend1 of Inl e \<Rightarrow> Inl e | Inr buffer1 \<Rightarrow>
      case duplicate_substr full_newbuffer1 fbegin1 fend1 of Inl e \<Rightarrow> Inl e | Inr newbuffer1 \<Rightarrow>
      case duplicate_substr full_buffer2 fbegin2 fend2 of Inl e \<Rightarrow> Inl e | Inr buffer2 \<Rightarrow>
      case duplicate_substr full_newbuffer2 fbegin2 fend2 of Inl e \<Rightarrow> Inl e | Inr newbuffer2 \<Rightarrow>
        let n1 = int (length buffer1); n2 = int (length buffer2)
        in if n1 \<noteq> int (length newbuffer1) \<or> n2 \<noteq> int (length newbuffer2) \<or>
              length full_buffer1 \<noteq> length full_newbuffer1 \<or> length full_buffer2 \<noteq> length full_newbuffer2
           then Inl Exit
           else
             (case compare_literals full_buffer1 full_buffer2
                     (create_func_items all_literals1 fbegin1 fend1)
                     (create_func_items all_literals2 fbegin2 fend2) (- 1) (- 1) of
                (True, offset1, offset2) \<Rightarrow> Inr (1, offset1, offset2)
              | (False, offset1, offset2) \<Rightarrow>
                  (case diff_walk newbuffer1 newbuffer2 n1 n2 0 0 of
                     Some (i, j) \<Rightarrow> Inr (1, i + fbegin1, j + fbegin2)
                   | None \<Rightarrow> Inr (0, offset1, offset2))))"

text \<open>
  The words of the specification for two texts that differ only by inserted runs of
  space, tab and newline bytes: without those bytes they are equal.
\<close>

definition differ_only_by_spaces :: "string \<Rightarrow> string \<Rightarrow> bool" where
  "differ_only_by_spaces s1 s2 \<longleftrightarrow>
     filter (\<lambda>c. \<not> diff_space c) s1 = filter (\<lambda>c. \<not> diff_space c) s2"

text \<open>A text whose last byte is a space, a tab or a newline.\<close>

definition ends_in_space :: "string \<Rightarrow> bool" where
  "ends_in_space s \<longleftrightarrow> s \<noteq> [] \<and> diff_space (last s)"

text \<open>
  Two literal items agree as \<open>diff\<close> compares them: same length, same kind and same raw
  text in the original buffers.
\<close>

definition literals_agree :: "string \<Rightarrow> string \<Rightarrow> item \<Rightarrow> item \<Rightarrow> bool" where
  "literals_agree buffer1 buffer2 x y \<longleftrightarrow>
     iend x - ibegin x = iend y - ibegin y \<and> itype x = itype y \<and>
     strncmp_eq (drop (nat (ibegin x)) buffer1) (drop (nat (ibegin y)) buffer2)
       (iend x - ibegin x + 1)"

text \<open>
  The comparison of one matched pair in \<open>diff_functions\<close> (the branch \<open>INTERNAL_DIFF\<close>):
  the literals of each whole buffer are found and blanked in a copy, then the comments,
  and \<open>diff\<close> compares the two extents.  The temporary files the function also writes
  are not modelled.
\<close>

definition blank_literals_and_comments :: "bool \<Rightarrow> string \<Rightarrow> error + (items \<times> string)" where
  "blank_literals_and_comments nested buffer =
     (case find_comments_and_literals nested buffer buffer init_items True False False of
        Inl e \<Rightarrow> Inl e
      | Inr literals \<Rightarrow>
     case clear buffer literals of
        Inl e \<Rightarrow> Inl e
      | Inr newbuffer \<Rightarrow>
     case find_comments_and_literals nested buffer newbuffer init_items False True False of
        Inl e \<Rightarrow> Inl e
      | Inr comments \<Rightarrow>
     case clear newbuffer comments of
        Inl e \<Rightarrow> Inl e
      | Inr newbuffer' \<Rightarrow> Inr (literals, newbuffer'))"

definition compare_pair ::
  "bool \<Rightarrow> string \<Rightarrow> string \<Rightarrow> fentry \<Rightarrow> fentry \<Rightarrow> error + (int \<times> int \<times> int)"
where
  "compare_pair nested buffer1 buffer2 f1 f2 =
     (case blank_literals_and_comments nested buffer1 of
        Inl e \<Rightarrow> Inl e
      | Inr (literals1, newbuffer1) \<Rightarrow>
     case blank_literals_and_comments nested buffer2 of
        Inl e \<Rightarrow> Inl e
      | Inr (literals2, newbuffer2) \<Rightarrow>
          diff buffer1 newbuffer1 (fbegin f1) (fend f1) literals1
               buffer2 newbuffer2 (fbegin f2) (fend f2) literals2)"

section \<open>Properties of clear\<close>

lemma length_clear_span: "length (clear_span buffer j e) = length buffer"
proof (induction buffer j e rule: clear_span.induct)
  case (1 buffer j e)
  then show ?case by (subst clear_span.simps) simp
qed

lemma nth_clear_span:
  "0 \<le> j \<Longrightarrow> k < length buffer \<Longrightarrow>
   clear_span buffer j e ! k = (if j \<le> int k \<and> int k \<le> e then CHR '' '' else buffer ! k)"
proof (induction buffer j e rule: clear_span.induct)
  case (1 buffer j e)
  show ?case
  proof (cases "j \<le> e")
    case True
    have "clear_span buffer j e ! k = clear_span (buffer[nat j := CHR '' '']) (j + 1) e ! k"
      using True by (subst clear_span.simps) simp
    also have "\<dots> = (if j + 1 \<le> int k \<and> int k \<le> e then CHR '' '' else buffer[nat j := CHR '' ''] ! k)"
      using "1.IH"[OF True] "1.prems" by simp
    also have "\<dots> = (if j \<le> int k \<and> int k \<le> e then CHR '' '' else buffer ! k)"
      using "1.prems" True by (auto simp: nth_list_update)
    finally show ?thesis .
  next
    case False
    then show ?thesis by (subst clear_span.simps) auto
  qed
qed

lemma nth_clear_span_empty:
  "e < j \<Longrightarrow> clear_span buffer j e = buffer"
  by (subst clear_span.simps) simp

lemma clear_item_Inr:
  assumes "clear_item n buffer it = Inr b'"
  shows "length b' = length buffer \<and>
    (\<forall>k<length buffer. b' ! k = (if ibegin it \<le> int k \<and> int k \<le> iend it then CHR '' '' else buffer ! k))"
proof (cases "ibegin it \<le> iend it")
  case True
  with assms have "0 \<le> ibegin it" and b: "b' = clear_span buffer (ibegin it) (iend it)"
    by (auto simp: clear_item_def split: if_splits)
  then show ?thesis by (simp add: length_clear_span nth_clear_span)
next
  case False
  with assms have "b' = buffer"
    by (auto simp: clear_item_def nth_clear_span_empty split: if_splits)
  with False show ?thesis by auto
qed

lemma clear_items_Inr:
  "clear_items n buffer Items = Inr b' \<Longrightarrow>
   length b' = length buffer \<and>
   (\<forall>k<length buffer. b' ! k =
      (if \<exists>it\<in>set Items. ibegin it \<le> int k \<and> int k \<le> iend it then CHR '' '' else buffer ! k))"
proof (induction Items arbitrary: buffer)
  case Nil
  then show ?case by simp
next
  case (Cons it Items)
  from Cons.prems obtain b1 where b1: "clear_item n buffer it = Inr b1"
    and rest: "clear_items n b1 Items = Inr b'"
    by (auto split: sum.splits)
  from clear_item_Inr[OF b1] Cons.IH[OF rest] show ?case by auto
qed

lemma clear_items_ok:
  "\<forall>it\<in>set Items. ibegin it < n \<and> iend it < n \<and> (ibegin it \<le> iend it \<longrightarrow> 0 \<le> ibegin it) \<Longrightarrow>
   \<exists>b'. clear_items n buffer Items = Inr b'"
proof (induction Items arbitrary: buffer)
  case Nil
  then show ?case by simp
next
  case (Cons it Items)
  then have "\<exists>b1. clear_item n buffer it = Inr b1"
    by (auto simp: clear_item_def)
  then obtain b1 where b1: "clear_item n buffer it = Inr b1" ..
  from Cons obtain b' where "clear_items n b1 Items = Inr b'" by force
  with b1 show ?case by simp
qed

text \<open>
  Claim C8.  Blanking a buffer over a collection of item spans overwrites exactly the
  bytes inside the spans with the space character and changes nothing else.  For every
  buffer and every item list whose spans pass the two assertions of \<open>clear\<close> and do
  not start in front of the buffer, \<open>clear\<close> returns a buffer of the same length in
  which offset \<open>j\<close> holds a space when \<open>j\<close> lies in one of the spans and its byte of the
  original buffer otherwise.  Offsets computed before the call therefore still address
  the same positions.
\<close>

theorem clear_blanks_exactly_the_spans:
  assumes "\<forall>it\<in>set Items. ibegin it < int (length buffer) \<and> iend it < int (length buffer) \<and>
             (ibegin it \<le> iend it \<longrightarrow> 0 \<le> ibegin it)"
  shows "\<exists>buffer'. clear buffer Items = Inr buffer' \<and> length buffer' = length buffer \<and>
           (\<forall>j<length buffer. buffer' ! j =
              (if \<exists>it\<in>set Items. ibegin it \<le> int j \<and> int j \<le> iend it
               then CHR '' '' else buffer ! j))"
proof -
  from clear_items_ok[OF assms] obtain b' where
    b': "clear_items (int (length buffer)) buffer Items = Inr b'" ..
  from clear_items_Inr[OF b'] b' show ?thesis by (auto simp: clear_def)
qed

theorem clear_witness:
  "clear ''ab cd ef'' [\<lparr>ibegin = 1, iend = 3, itype = COMMENT\<rparr>, \<lparr>ibegin = 6, iend = 7, itype = STRING\<rparr>]
     = Inr ''a   d   '' \<and> length ''a   d   '' = length ''ab cd ef''"
  using clear_blanks_exactly_the_spans[of "[\<lparr>ibegin = 1, iend = 3, itype = COMMENT\<rparr>, \<lparr>ibegin = 6, iend = 7, itype = STRING\<rparr>]" "''ab cd ef''"]
  by (simp add: clear_def clear_item_def clear_span.simps)

section \<open>Properties of the merge\<close>

lemma MIN_c_min: "MIN_c x y = min x y"
  by (simp add: MIN_c_def min_def)

lemma MAX_c_max: "MAX_c x y = max x y"
  by (simp add: MAX_c_def max_def)

lemma find_fname_None: "find_fname d name = None \<longleftrightarrow> name \<notin> fname ` set d"
  by (induction d) auto

lemma find_fname_SomeD:
  "find_fname d name = Some k \<Longrightarrow>
   \<exists>pre m post. d = pre @ m # post \<and> length pre = k \<and> fname m = name \<and> name \<notin> fname ` set pre"
proof (induction d arbitrary: k)
  case Nil
  then show ?case by simp
next
  case (Cons a d)
  show ?case
  proof (cases "fname a = name")
    case True
    with Cons.prems have "k = 0" by simp
    with True show ?thesis by (intro exI[of _ "[]"]) auto
  next
    case False
    with Cons.prems obtain k' where k': "find_fname d name = Some k'" "k = Suc k'" by auto
    from Cons.IH[OF k'(1)] obtain pre m post where
      "d = pre @ m # post" "length pre = k'" "fname m = name" "name \<notin> fname ` set pre" by blast
    with False k'(2) show ?thesis by (intro exI[of _ "a # pre"]) auto
  qed
qed

lemma merge_entry_cases:
  "(fname s \<notin> fname ` set d \<and> merge_entry d s = d @ [s]) \<or>
   (\<exists>pre m post. d = pre @ m # post \<and> fname m = fname s \<and> fname s \<notin> fname ` set pre \<and>
      merge_entry d s =
        pre @ m\<lparr>fbegin := MIN_c (fbegin m) (fbegin s), fend := MAX_c (fend m) (fend s)\<rparr> # post)"
proof (cases "find_fname d (fname s)")
  case None
  then have "fname s \<notin> fname ` set d" by (simp add: find_fname_None)
  moreover from None have "merge_entry d s = d @ [s]" by (simp add: merge_entry_def fadd_def)
  ultimately show ?thesis by blast
next
  case (Some k)
  from find_fname_SomeD[OF Some] obtain pre m post where
    d: "d = pre @ m # post" and k: "length pre = k" and m: "fname m = fname s"
    and pre: "fname s \<notin> fname ` set pre" by blast
  have "d ! k = m" using d k by auto
  moreover have "d[k := x] = pre @ x # post" for x using d k by auto
  ultimately have "merge_entry d s =
      pre @ m\<lparr>fbegin := MIN_c (fbegin m) (fbegin s), fend := MAX_c (fend m) (fend s)\<rparr> # post"
    using Some by (simp add: merge_entry_def)
  with d m pre show ?thesis by blast
qed

lemma map_fname_merge_entry:
  "map fname (merge_entry d s) =
     (if fname s \<in> fname ` set d then map fname d else map fname d @ [fname s])"
  using merge_entry_cases[of s d] by (elim disjE exE conjE) auto

lemma distinct_merge_entry:
  "distinct (map fname d) \<Longrightarrow> distinct (map fname (merge_entry d s))"
  by (auto simp: map_fname_merge_entry)

lemma distinct_merge_set:
  "distinct (map fname d) \<Longrightarrow> distinct (map fname (merge_set d ss))"
  by (induction ss arbitrary: d) (auto simp: distinct_merge_entry)

lemma distinct_merge_sets:
  "distinct (map fname d) \<Longrightarrow> distinct (map fname (merge_sets d srcs))"
  by (induction srcs arbitrary: d) (auto simp: distinct_merge_set)

lemma check_func_duplicates_distinct:
  "distinct (map fname functions) \<Longrightarrow> check_func_duplicates functions = 0"
  by (auto simp: check_func_duplicates_def distinct_conv_nth)

text \<open>
  Claim C10.  Whatever the per-choice function sets are, the set merged by
  \<open>select_best_func_limits\<close> holds pairwise distinct names: a name already present is
  updated in place and never appended again.  Hence \<open>check_func_duplicates\<close> returns 0
  on every merged set and the duplicate-name warning of \<open>find_functions\<close> cannot be
  printed.
\<close>

theorem merged_names_distinct:
  "distinct (map fname (select_best_func_limits source counter)) \<and>
   check_func_duplicates (select_best_func_limits source counter) = 0"
proof -
  have "distinct (map fname (select_best_func_limits source counter))"
    unfolding select_best_func_limits_def by (rule distinct_merge_sets) (simp add: finit_def)
  then show ?thesis by (simp add: check_func_duplicates_distinct)
qed

theorem merged_names_distinct_witness:
  "check_func_duplicates
     (select_best_func_limits
        [[\<lparr>fname = ''f'', fbegin = 0, fend = 5\<rparr>, \<lparr>fname = ''f'', fbegin = 7, fend = 9\<rparr>],
         [\<lparr>fname = ''f'', fbegin = 2, fend = 8\<rparr>]] 2) = 0"
  using merged_names_distinct
    [of "[[\<lparr>fname = ''f'', fbegin = 0, fend = 5\<rparr>, \<lparr>fname = ''f'', fbegin = 7, fend = 9\<rparr>],
         [\<lparr>fname = ''f'', fbegin = 2, fend = 8\<rparr>]]" 2]
  by simp

lemma merge_set_append: "merge_set d (xs @ ys) = merge_set (merge_set d xs) ys"
  by (induction xs arbitrary: d) auto

lemma merge_sets_concat: "merge_sets d srcs = merge_set d (concat srcs)"
  by (induction srcs arbitrary: d) (auto simp: merge_set_append)

lemma filter_merge_entry_other:
  "fname s \<noteq> name \<Longrightarrow>
   filter (\<lambda>e. fname e = name) (merge_entry d s) = filter (\<lambda>e. fname e = name) d"
  using merge_entry_cases[of s d] by (elim disjE exE conjE) auto

lemma filter_merge_entry_new:
  "fname s \<notin> fname ` set d \<Longrightarrow>
   filter (\<lambda>e. fname e = fname s) (merge_entry d s) = [s]"
  using merge_entry_cases[of s d] by (elim disjE exE conjE) (auto simp: filter_empty_conv image_iff)

lemma filter_merge_entry_old:
  assumes "distinct (map fname d)" and "fname s \<in> fname ` set d"
  shows "\<exists>m. filter (\<lambda>e. fname e = fname s) d = [m] \<and>
           filter (\<lambda>e. fname e = fname s) (merge_entry d s) =
           [m\<lparr>fbegin := MIN_c (fbegin m) (fbegin s), fend := MAX_c (fend m) (fend s)\<rparr>]"
proof -
  from merge_entry_cases[of s d] assms(2) obtain pre m post where
    d: "d = pre @ m # post" and m: "fname m = fname s" and pre: "fname s \<notin> fname ` set pre"
    and me: "merge_entry d s =
        pre @ m\<lparr>fbegin := MIN_c (fbegin m) (fbegin s), fend := MAX_c (fend m) (fend s)\<rparr> # post"
    by blast
  from assms(1) d m have post: "fname s \<notin> fname ` set post" by auto
  have "filter (\<lambda>e. fname e = fname s) pre = []" "filter (\<lambda>e. fname e = fname s) post = []"
    using pre post by (auto simp: filter_empty_conv image_iff)
  then show ?thesis using d m me by (intro exI[of _ m]) simp
qed

text \<open>The occurrences of a name among the entries merged so far.\<close>

lemma merge_set_extent:
  fixes name :: string
  defines "occ ss \<equiv> {e \<in> set ss. fname e = name}"
  shows "distinct (map fname (merge_set [] ss)) \<and>
         fname ` set (merge_set [] ss) = fname ` set ss \<and>
         (occ ss \<noteq> {} \<longrightarrow>
            filter (\<lambda>e. fname e = name) (merge_set [] ss) =
              [\<lparr>fname = name, fbegin = Min (fbegin ` occ ss), fend = Max (fend ` occ ss)\<rparr>])"
proof (induction ss rule: rev_induct)
  case Nil
  then show ?case by (simp add: occ_def)
next
  case (snoc s ss)
  let ?r = "merge_set [] ss"
  have step: "merge_set [] (ss @ [s]) = merge_entry ?r s" by (simp add: merge_set_append)
  from snoc have dist: "distinct (map fname ?r)" and names: "fname ` set ?r = fname ` set ss" by auto
  have fin: "finite (occ ss)" by (simp add: occ_def)
  have c1: "distinct (map fname (merge_entry ?r s))" using dist by (rule distinct_merge_entry)
  have c2: "fname ` set (merge_entry ?r s) = fname ` set (ss @ [s])"
  proof -
    have "set (map fname (merge_entry ?r s)) = set (map fname ?r) \<union> {fname s}"
      by (auto simp: map_fname_merge_entry)
    then show ?thesis using names by auto
  qed
  have c3: "filter (\<lambda>e. fname e = name) (merge_entry ?r s) =
      [\<lparr>fname = name, fbegin = Min (fbegin ` occ (ss @ [s])), fend = Max (fend ` occ (ss @ [s]))\<rparr>]"
    if ne: "occ (ss @ [s]) \<noteq> {}"
  proof (cases "fname s = name")
    case False
    then have "occ (ss @ [s]) = occ ss" by (auto simp: occ_def)
    with ne snoc False show ?thesis by (simp add: filter_merge_entry_other)
  next
    case True
    then have occ: "occ (ss @ [s]) = insert s (occ ss)" by (auto simp: occ_def)
    show ?thesis
    proof (cases "occ ss = {}")
      case True
      then have "fname s \<notin> fname ` set ?r" using names \<open>fname s = name\<close> by (auto simp: occ_def)
      from filter_merge_entry_new[OF this] show ?thesis using True occ \<open>fname s = name\<close> by simp
    next
      case False
      then obtain e where "e \<in> set ss" "fname e = name" by (auto simp: occ_def)
      then have "name \<in> fname ` set ss" by (metis imageI)
      then have "fname s \<in> fname ` set ?r" using names \<open>fname s = name\<close> by simp
      from filter_merge_entry_old[OF dist this] snoc False \<open>fname s = name\<close>
      have "filter (\<lambda>e. fname e = name) (merge_entry ?r s) =
          [\<lparr>fname = name, fbegin = MIN_c (Min (fbegin ` occ ss)) (fbegin s),
            fend = MAX_c (Max (fend ` occ ss)) (fend s)\<rparr>]" by auto
      moreover have "MIN_c (Min (fbegin ` occ ss)) (fbegin s) = Min (fbegin ` insert s (occ ss))"
      proof -
        have "Min (insert (fbegin s) (fbegin ` occ ss)) = min (fbegin s) (Min (fbegin ` occ ss))"
          using fin False by (intro Min_insert) auto
        then show ?thesis by (simp only: image_insert MIN_c_min min.commute)
      qed
      moreover have "MAX_c (Max (fend ` occ ss)) (fend s) = Max (fend ` insert s (occ ss))"
      proof -
        have "Max (insert (fend s) (fend ` occ ss)) = max (fend s) (Max (fend ` occ ss))"
          using fin False by (intro Max_insert) auto
        then show ?thesis by (simp only: image_insert MAX_c_max max.commute)
      qed
      ultimately show ?thesis using occ by simp
    qed
  qed
  show ?case using c1 c2 c3 step by simp
qed

text \<open>
  Claim C2.  For every function name that occurs in the per-choice function sets read
  by the merge, the merged set holds exactly one entry of that name; its begin is the
  minimum of the begins and its end the maximum of the ends of all entries of that name
  in those sets (the \<open>k\<close> begins and ends when each of the \<open>k\<close> sets that hold the name
  holds it once); and when every per-choice entry has begin \<open>\<le>\<close> end, so has the merged
  entry.
\<close>

theorem merged_extent_is_min_max:
  assumes "\<exists>e \<in> set (concat (take counter source)). fname e = name"
  shows "\<exists>m. filter (\<lambda>e. fname e = name) (select_best_func_limits source counter) = [m] \<and>
           fbegin m = Min (fbegin ` {e \<in> set (concat (take counter source)). fname e = name}) \<and>
           fend m = Max (fend ` {e \<in> set (concat (take counter source)). fname e = name}) \<and>
           ((\<forall>e \<in> set (concat (take counter source)). fbegin e \<le> fend e) \<longrightarrow> fbegin m \<le> fend m)"
proof -
  let ?all = "concat (take counter source)"
  let ?occ = "{e \<in> set ?all. fname e = name}"
  have ne: "?occ \<noteq> {}" using assms by auto
  have fin: "finite ?occ" by simp
  let ?m = "\<lparr>fname = name, fbegin = Min (fbegin ` ?occ), fend = Max (fend ` ?occ)\<rparr>"
  have "select_best_func_limits source counter = merge_set [] ?all"
    by (simp add: select_best_func_limits_def merge_sets_concat finit_def)
  with merge_set_extent[of ?all name] ne
  have f: "filter (\<lambda>e. fname e = name) (select_best_func_limits source counter) = [?m]" by simp
  have "Min (fbegin ` ?occ) \<le> Max (fend ` ?occ)" if le: "\<forall>e \<in> set ?all. fbegin e \<le> fend e"
  proof -
    from ne obtain e where e: "e \<in> ?occ" by blast
    have "Min (fbegin ` ?occ) \<le> fbegin e" using e fin by (intro Min_le) auto
    also have "fbegin e \<le> fend e" using e le by auto
    also have "fend e \<le> Max (fend ` ?occ)" using e fin by (intro Max_ge) auto
    finally show ?thesis .
  qed
  with f show ?thesis by (intro exI[of _ ?m]) simp
qed

theorem merged_extent_is_min_max_witness:
  "filter (\<lambda>e. fname e = ''f'')
     (select_best_func_limits
        [[\<lparr>fname = ''f'', fbegin = 3, fend = 5\<rparr>, \<lparr>fname = ''g'', fbegin = 7, fend = 9\<rparr>],
         [\<lparr>fname = ''f'', fbegin = 2, fend = 4\<rparr>]] 2)
   = [\<lparr>fname = ''f'', fbegin = 2, fend = 5\<rparr>]"
  using merged_extent_is_min_max
    [of 2 "[[\<lparr>fname = ''f'', fbegin = 3, fend = 5\<rparr>, \<lparr>fname = ''g'', fbegin = 7, fend = 9\<rparr>],
         [\<lparr>fname = ''f'', fbegin = 2, fend = 4\<rparr>]]" "''f''"]
  by (simp add: select_best_func_limits_def finit_def merge_entry_def fadd_def MIN_c_def MAX_c_def)

section \<open>Properties of the scanner\<close>








lemma skip_spaces_loop_le:
  "index \<le> int (length buffer) \<Longrightarrow> skip_spaces_loop buffer index \<le> int (length buffer)"
proof (induction buffer index rule: skip_spaces_loop.induct)
  case (1 buffer index)
  show ?case
  proof (cases "is_space (byte_at buffer index)")
    case True
    then have "index + 1 \<le> int (length buffer)" using is_space_byte_at[OF True] by simp
    with "1.IH"[OF True] True show ?thesis by (subst skip_spaces_loop.simps) simp
  next
    case False
    with "1.prems" show ?thesis by (subst skip_spaces_loop.simps) simp
  qed
qed









section \<open>Tokens are pieces of the buffer\<close>









section \<open>Properties of match\_symbol\<close>

lemma byte_at_nth: "0 \<le> i \<Longrightarrow> i < int (length buffer) \<Longrightarrow> byte_at buffer i = buffer ! nat i"
  by (simp add: byte_at_def)

lemma byte_at_not_NUL:
  "CHR 0x00 \<notin> set buffer \<Longrightarrow> byte_at buffer i \<noteq> CHR 0x00 \<longleftrightarrow> 0 \<le> i \<and> i < int (length buffer)"
  by (auto simp: byte_at_def) (metis nth_mem nat_less_iff)

lemma backslashes_before_Suc:
  assumes "0 \<le> k" "k < int (length buffer)"
  shows "backslashes_before buffer (k + 1) =
           (if byte_at buffer k = CHR 0x5C then Suc (backslashes_before buffer k) else 0)"
proof -
  have "nat (k + 1) = Suc (nat k)" using assms by simp
  moreover have "nat k < length buffer" using assms by simp
  ultimately have "take (nat (k + 1)) buffer = take (nat k) buffer @ [buffer ! nat k]"
    by (simp add: take_Suc_conv_app_nth)
  then show ?thesis using assms by (simp add: backslashes_before_def byte_at_def)
qed

lemma escape_flag_parity:
  "0 \<le> i \<Longrightarrow> i \<le> e + 1 \<Longrightarrow> e < int (length buffer) \<Longrightarrow>
   flag = odd (backslashes_before buffer i) \<Longrightarrow>
   escape_flag buffer i e flag = odd (backslashes_before buffer (e + 1))"
proof (induction buffer i e flag rule: escape_flag.induct)
  case (1 buffer i e flag)
  show ?case
  proof (cases "i \<le> e")
    case True
    let ?flag' = "if byte_at buffer i = CHR 0x5C then \<not> flag else False"
    have "?flag' = odd (backslashes_before buffer (i + 1))"
      using "1.prems" True by (simp add: backslashes_before_Suc)
    from "1.IH"[OF True _ _ _ this] "1.prems" True
    have "escape_flag buffer (i + 1) e ?flag' = odd (backslashes_before buffer (e + 1))" by simp
    then show ?thesis using True by (subst escape_flag.simps) simp
  next
    case False
    with "1.prems" have "i = e + 1" by simp
    with "1.prems" False show ?thesis by (subst escape_flag.simps) simp
  qed
qed

lemma strchr_loop_Some:
  "strchr_loop buffer index c = Some p \<Longrightarrow> c \<noteq> CHR 0x00 \<Longrightarrow>
   index \<le> p \<and> byte_at buffer p = c \<and> (\<forall>q. index \<le> q \<and> q < p \<longrightarrow> byte_at buffer q \<noteq> c)"
proof (induction buffer index c rule: strchr_loop.induct)
  case (1 buffer index c)
  show ?case
  proof (cases "byte_at buffer index = c")
    case True
    with "1.prems" have "p = index" by (subst (asm) strchr_loop.simps) simp
    with True show ?thesis by auto
  next
    case False
    with "1.prems" have nz: "byte_at buffer index \<noteq> CHR 0x00"
      and rec: "strchr_loop buffer (index + 1) c = Some p"
      by (subst (asm) strchr_loop.simps; simp split: if_splits)+
    from "1.IH"[OF False nz rec "1.prems"(2)] False show ?thesis
      by (auto simp: order_le_less) (metis add.commute zless_imp_add1_zle order_le_less)
  qed
qed

lemma strchr_loop_None:
  "strchr_loop buffer index c = None \<Longrightarrow> 0 \<le> index \<Longrightarrow> CHR 0x00 \<notin> set buffer \<Longrightarrow>
   (\<forall>q. index \<le> q \<longrightarrow> byte_at buffer q \<noteq> c)"
proof (induction buffer index c rule: strchr_loop.induct)
  case (1 buffer index c)
  from "1.prems"(1) have ne: "byte_at buffer index \<noteq> c"
    by (subst (asm) strchr_loop.simps) (simp split: if_splits)
  show ?case
  proof (cases "byte_at buffer index = CHR 0x00")
    case True
    with "1.prems" have "int (length buffer) \<le> index" using byte_at_not_NUL[of buffer index] by auto
    then have "byte_at buffer q = CHR 0x00" if "index \<le> q" for q using that by (simp add: byte_at_def)
    with True ne show ?thesis by auto
  next
    case False
    with "1.prems"(1) ne have rec: "strchr_loop buffer (index + 1) c = None"
      by (subst (asm) strchr_loop.simps) (simp split: if_splits)
    from "1.IH"[OF ne False rec] "1.prems" have "\<forall>q. index + 1 \<le> q \<longrightarrow> byte_at buffer q \<noteq> c" by simp
    with ne show ?thesis by (metis add.commute zless_imp_add1_zle order_le_less)
  qed
qed

lemma match_symbol_loop_spec:
  "CHR 0x00 \<notin> set buffer \<Longrightarrow> symbol \<noteq> CHR 0x00 \<Longrightarrow> symbol \<noteq> CHR 0x5C \<Longrightarrow>
   byte_at buffer io = symbol \<Longrightarrow> io < index \<Longrightarrow> index \<le> int (length buffer) \<Longrightarrow>
    (\<forall>q. io < q \<and> q < index \<longrightarrow> \<not> unescaped_quote buffer symbol q) \<Longrightarrow>
    (\<exists>p. match_symbol_loop buffer io symbol index = Inr (p + 1) \<and> io < p \<and>
         p < int (length buffer) \<and> unescaped_quote buffer symbol p \<and>
         (\<forall>q. io < q \<and> q < p \<longrightarrow> \<not> unescaped_quote buffer symbol q)) \<or>
    (match_symbol_loop buffer io symbol index = Inr (int (length buffer)) \<and>
       (\<forall>q. io < q \<and> q < int (length buffer) \<longrightarrow> \<not> unescaped_quote buffer symbol q))"
proof (induction buffer io symbol index rule: match_symbol_loop.induct)
  case (1 buffer io symbol index)
  note nul = "1.prems"(1) and s0 = "1.prems"(2) and sb = "1.prems"(3) and io = "1.prems"(4)
    and lt = "1.prems"(5) and le = "1.prems"(6) and inv = "1.prems"(7)
  from io s0 nul have io0: "0 \<le> io" "io < int (length buffer)"
    using byte_at_not_NUL[of buffer io] by auto
  have sc: "strchr buffer index symbol = Inr (strchr_loop buffer index symbol)"
    using io0 lt le by (simp add: strchr_def)
  have bsb0: "backslashes_before buffer (io + 1) = 0"
    using io0 io sb by (simp add: backslashes_before_Suc)
  show ?case
  proof (cases "strchr_loop buffer index symbol")
    case None
    from strchr_loop_None[OF None _ nul] io0 lt
    have "\<forall>q. index \<le> q \<longrightarrow> byte_at buffer q \<noteq> symbol" by simp
    with inv have "\<forall>q. io < q \<and> q < int (length buffer) \<longrightarrow> \<not> unescaped_quote buffer symbol q"
      by (metis not_le unescaped_quote_def)
    moreover have "match_symbol_loop buffer io symbol index = Inr (int (length buffer))"
      using sc None by (simp add: match_symbol_loop_None)
    ultimately show ?thesis by blast
  next
    case (Some p)
    from strchr_loop_Some[OF Some s0]
    have p: "index \<le> p" "byte_at buffer p = symbol"
      and before: "\<forall>q. index \<le> q \<and> q < p \<longrightarrow> byte_at buffer q \<noteq> symbol" by auto
    from p(2) s0 nul have plen: "0 \<le> p" "p < int (length buffer)"
      using byte_at_not_NUL[of buffer p] by auto
    have sp: "strchr buffer index symbol = Inr (Some p)" using sc Some by simp
    have upto_p: "\<forall>q. io < q \<and> q < p \<longrightarrow> \<not> unescaped_quote buffer symbol q"
      using inv before by (metis not_le unescaped_quote_def)
    have p1: "0 \<le> p - 1" "p - 1 < int (length buffer)" using io0 lt p plen by auto
    show ?thesis
    proof (cases "byte_at buffer (p - 1) = CHR 0x5C")
      case False
      have "backslashes_before buffer p = 0"
        using backslashes_before_Suc[OF p1] False by simp
      then have uq: "unescaped_quote buffer symbol p" using p(2) by (simp add: unescaped_quote_def)
      have "match_symbol_loop buffer io symbol index = Inr (p + 1)"
        using False by (simp add: match_symbol_loop_Some[OF sp])
      with uq upto_p lt p plen show ?thesis by (intro disjI1 exI[of _ p]) auto
    next
      case True
      have "p - 1 \<noteq> io" using True io sb by auto
      then have as: "\<not> \<not> p - 1 \<ge> io + 1" using lt p by simp
      have par: "escape_flag buffer (io + 1) (p - 1) False = odd (backslashes_before buffer p)"
        using escape_flag_parity[of "io + 1" "p - 1" buffer False] io0 as p1 bsb0 by simp
      show ?thesis
      proof (cases "odd (backslashes_before buffer p)")
        case False
        then have uq: "unescaped_quote buffer symbol p" using p(2) by (simp add: unescaped_quote_def)
        have "match_symbol_loop buffer io symbol index = Inr (p + 1)"
          using True as par False by (simp add: match_symbol_loop_Some[OF sp])
        with uq upto_p lt p plen show ?thesis by (intro disjI1 exI[of _ p]) auto
      next
        case odd: True
        have fl: "escape_flag buffer (io + 1) (p - 1) False" using par odd by simp
        have inv': "\<forall>q. io < q \<and> q < p + 1 \<longrightarrow> \<not> unescaped_quote buffer symbol q"
        proof (intro allI impI)
          fix q assume q: "io < q \<and> q < p + 1"
          show "\<not> unescaped_quote buffer symbol q"
          proof (cases "q = p")
            case True
            with odd show ?thesis by (simp add: unescaped_quote_def)
          next
            case False
            with q upto_p show ?thesis by simp
          qed
        qed
        have rec: "match_symbol_loop buffer io symbol index = match_symbol_loop buffer io symbol (p + 1)"
          using True as fl by (simp add: match_symbol_loop_Some[OF sp])
        from "1.IH"[OF sp refl True refl refl as fl nul s0 sb io _ _ inv'] lt p plen
        show ?thesis unfolding rec by simp
      qed
    qed
  qed
qed

lemma find_upto_Some:
  "a \<le> p \<Longrightarrow> p \<le> b \<Longrightarrow> P p \<Longrightarrow> (\<forall>q. a \<le> q \<and> q < p \<longrightarrow> \<not> P q) \<Longrightarrow>
   List.find P [a..b] = Some p"
proof (induction a b rule: upto.induct)
  case (1 i j)
  from "1.prems" have ij: "i \<le> j" by simp
  then have unf: "[i..j] = i # [i + 1..j]" by (simp add: upto_rec1)
  show ?case
  proof (cases "i = p")
    case True
    with "1.prems" unf show ?thesis by simp
  next
    case False
    with "1.prems" have np: "\<not> P i" and lt: "i + 1 \<le> p" by auto
    have "\<forall>q. i + 1 \<le> q \<and> q < p \<longrightarrow> \<not> P q" using "1.prems"(4) by auto
    from "1.IH"[OF ij lt "1.prems"(2,3) this] np unf show ?thesis by simp
  qed
qed

lemma find_upto_None:
  "(\<forall>q. a \<le> q \<and> q \<le> b \<longrightarrow> \<not> P q) \<Longrightarrow> List.find P [a..b] = None"
  by (simp add: find_None_iff)

lemma match_symbol_spec:
  assumes "CHR 0x00 \<notin> set buffer" and "symbol \<noteq> CHR 0x00" and "symbol \<noteq> CHR 0x5C"
    and "byte_at buffer index = symbol"
  shows "match_symbol buffer index symbol =
           Inr (case next_unescaped_quote buffer index symbol of
                  Some p \<Rightarrow> p + 1
                | None \<Rightarrow> int (length buffer))"
proof -
  from assms have i0: "0 \<le> index" "index < int (length buffer)"
    using byte_at_not_NUL[of buffer index] by auto
  have ms: "match_symbol buffer index symbol = match_symbol_loop buffer index symbol (index + 1)"
    using assms(4) by (simp add: match_symbol_def)
  have "\<forall>q. index < q \<and> q < index + 1 \<longrightarrow> \<not> unescaped_quote buffer symbol q" by auto
  from match_symbol_loop_spec[OF assms _ _ this] i0
  consider
    (closed) p where "match_symbol_loop buffer index symbol (index + 1) = Inr (p + 1)"
      "index < p" "p < int (length buffer)" "unescaped_quote buffer symbol p"
      "\<forall>q. index < q \<and> q < p \<longrightarrow> \<not> unescaped_quote buffer symbol q"
  | (open_end) "match_symbol_loop buffer index symbol (index + 1) = Inr (int (length buffer))"
      "\<forall>q. index < q \<and> q < int (length buffer) \<longrightarrow> \<not> unescaped_quote buffer symbol q"
    by fastforce
  then show ?thesis
  proof cases
    case closed
    have "next_unescaped_quote buffer index symbol = Some p"
      unfolding next_unescaped_quote_def
      using closed(2-5) by (intro find_upto_Some) auto
    with closed(1) ms show ?thesis by simp
  next
    case open_end
    have "next_unescaped_quote buffer index symbol = None"
      unfolding next_unescaped_quote_def
      using open_end(2) by (intro find_upto_None) auto
    with open_end(1) ms show ?thesis by simp
  qed
qed

text \<open>
  Claim C6.  For every buffer (a C string) and every literal opened at \<open>index\<close> by the
  quote character \<open>symbol\<close> (a byte other than NUL and the backslash; the scan passes the
  double and the single quote), \<open>match_symbol\<close> closes the literal at the next
  occurrence of \<open>symbol\<close> after \<open>index\<close> that is preceded by an even number (possibly
  zero) of consecutive backslashes, returning the offset after it, and so continues past
  every matching quote preceded by an odd number of them; when there is no such quote
  the literal runs to the end of the buffer.
\<close>

theorem match_symbol_closes_at_next_unescaped_quote:
  assumes "CHR 0x00 \<notin> set buffer" and "symbol \<noteq> CHR 0x00" and "symbol \<noteq> CHR 0x5C"
    and "byte_at buffer index = symbol"
  shows "match_symbol buffer index symbol =
           Inr (case next_unescaped_quote buffer index symbol of
                  Some p \<Rightarrow> p + 1
                | None \<Rightarrow> int (length buffer))"
  using assms by (rule match_symbol_spec)

theorem match_symbol_witness:
  "match_symbol (''a'' @ [CHR 0x22] @ ''b'' @ [CHR 0x5C, CHR 0x22] @ ''c'' @ [CHR 0x22] @ ''d'') 1
     (CHR 0x22) = Inr 7"
proof -
  let ?b = "''a'' @ [CHR 0x22] @ ''b'' @ [CHR 0x5C, CHR 0x22] @ ''c'' @ [CHR 0x22] @ ''d''"
  have a: "CHR 0x00 \<notin> set ?b" by simp
  have b: "byte_at ?b 1 = CHR 0x22" by (simp add: byte_at_def)
  have c: "next_unescaped_quote ?b 1 (CHR 0x22) = Some 6" by code_simp
  show ?thesis
    using match_symbol_closes_at_next_unescaped_quote[OF a _ _ b] c by simp
qed

section \<open>Unterminated comments and literals\<close>




















section \<open>Properties of the branch selector\<close>

lemma compute_depth_width_unfold:
  "compute_depth_width (Element t tb te pb pe pt p list) =
     (let max_dw = foldl dw_step \<lparr>depth = 0, width = 0\<rparr> list
      in if t = OR
         then \<lparr>depth = depth max_dw + 1, width = MAX_c (width max_dw) (int (length list))\<rparr>
         else max_dw)"
  unfolding dw_step_def by simp

lemma foldl_dw_step_acc:
  "depth acc \<le> depth (foldl dw_step acc list) \<and> width acc \<le> width (foldl dw_step acc list)"
proof (induction list arbitrary: acc)
  case Nil
  then show ?case by simp
next
  case (Cons c list)
  have "depth acc \<le> depth (dw_step acc c)" "width acc \<le> width (dw_step acc c)"
    by (simp_all add: dw_step_def MAX_c_def Let_def)
  with Cons[of "dw_step acc c"] show ?case by auto
qed



lemma compute_depth_width_nonneg:
  "0 \<le> depth (compute_depth_width e) \<and> 0 \<le> width (compute_depth_width e)"
proof (cases e)
  case (Element t tb te pb pe pt p list)
  from foldl_dw_step_acc[of "\<lparr>depth = 0, width = 0\<rparr>" list]
  show ?thesis unfolding Element compute_depth_width_unfold
    by (auto simp: Let_def MAX_c_def)
qed













end
